theory Spec2Isabelle
  imports Complex_Main "HOL-Library.AList"
begin

section \<open>The bounded cache engine (CacheService)\<close>

text \<open>
  The cache keeps a JavaScript \<open>Map\<close> from string keys to entries together with a running
  byte counter. A \<open>Map\<close> iterates in insertion order and holds each key once, so it is
  modelled as an association list in insertion order: \<open>map_of\<close> is \<open>Map.get\<close>,
  \<open>AList.update\<close> is \<open>Map.set\<close> (in place for a key that is present, appended at the end
  otherwise) and \<open>AList.delete\<close> is \<open>Map.delete\<close>.

  Sizes are JavaScript numbers. The estimators of the source produce whole numbers and
  quarters (\<open>length * 2\<close>, \<open>1024\<close>, \<open>length * 3 / 4\<close>), on which the arithmetic of the source
  is exact; they are modelled as rationals. Times are the millisecond readings of
  \<open>Date.now()\<close>, modelled as integers; every reading of the clock is a parameter of the
  operation that takes it, in the order in which the source reads it. The timer handle
  \<open>cleanupTimer\<close> is not part of the model; the sweep it triggers is \<open>cleanup\<close>.
\<close>

record 'a CacheEntry =
  data :: 'a
  timestamp :: int
  size_e :: rat
  expires :: int

record CacheOptions =
  maxSize :: rat
  defaultTTL :: int
  cleanupInterval :: int

record 'a CacheService =
  cache :: "(string \<times> 'a CacheEntry) list"
  currentSize :: rat
  options :: CacheOptions

text \<open>The constructor: the defaults, overridden by the fields the caller supplies.\<close>

definition CacheService_new :: "rat option \<Rightarrow> int option \<Rightarrow> int option \<Rightarrow> 'a CacheService" where
  "CacheService_new maxSize_opt defaultTTL_opt cleanupInterval_opt =
     \<lparr> cache = [],
       currentSize = 0,
       options = \<lparr> maxSize = (case maxSize_opt of Some m \<Rightarrow> m | None \<Rightarrow> 100 * 1024 * 1024),
                   defaultTTL = (case defaultTTL_opt of Some t \<Rightarrow> t | None \<Rightarrow> 24 * 60 * 60 * 1000),
                   cleanupInterval = (case cleanupInterval_opt of Some i \<Rightarrow> i | None \<Rightarrow> 5 * 60 * 1000) \<rparr> \<rparr>"

text \<open>
  \<open>estimateSize\<close>: twice the length of the JSON serialisation, or 1024 when serialising
  throws. \<open>JSON.stringify\<close> is a built-in of the platform; the length of its result is the
  parameter \<open>stringify_len\<close>, with \<open>None\<close> for a value that cannot be serialised.
\<close>

definition estimateSize :: "('a \<Rightarrow> nat option) \<Rightarrow> 'a \<Rightarrow> rat" where
  "estimateSize stringify_len d =
     (case stringify_len d of Some n \<Rightarrow> of_nat n * 2 | None \<Rightarrow> 1024)"

text \<open>\<open>a || b\<close> on an optional number: \<open>undefined\<close> and \<open>0\<close> are falsy.\<close>

definition or_else :: "'n::zero option \<Rightarrow> 'n \<Rightarrow> 'n" where
  "or_else x dflt = (case x of Some v \<Rightarrow> if v \<noteq> 0 then v else dflt | None \<Rightarrow> dflt)"

definition delete :: "string \<Rightarrow> 'a CacheService \<Rightarrow> bool \<times> 'a CacheService" where
  "delete key c =
     (case map_of (cache c) key of
        Some entry \<Rightarrow>
          (True, c\<lparr> cache := AList.delete key (cache c),
                    currentSize := currentSize c - size_e entry \<rparr>)
      | None \<Rightarrow> (False, c))"

text \<open>
  The scan of \<open>evictLeastRecentlyUsed\<close>: \<open>oldestKey\<close> starts as \<open>null\<close> and
  \<open>oldestTimestamp\<close> as \<open>Infinity\<close> (both \<open>None\<close> here); an entry replaces the candidate
  only when its timestamp is strictly smaller.
\<close>

fun before_oldest :: "int \<Rightarrow> int option \<Rightarrow> bool" where
  "before_oldest t None = True"
| "before_oldest t (Some u) = (t < u)"

fun scanOldest :: "(string \<times> 'a CacheEntry) list \<Rightarrow> string option \<Rightarrow> int option \<Rightarrow> string option" where
  "scanOldest [] oldestKey oldestTimestamp = oldestKey"
| "scanOldest ((key, entry) # rest) oldestKey oldestTimestamp =
     (if before_oldest (timestamp entry) oldestTimestamp
      then scanOldest rest (Some key) (Some (timestamp entry))
      else scanOldest rest oldestKey oldestTimestamp)"

text \<open>
  \<open>if (oldestKey)\<close> tests the key for truthiness: \<open>null\<close> and the empty string are both
  falsy, so an oldest entry stored under the empty key is not deleted.
\<close>

definition evictLeastRecentlyUsed :: "'a CacheService \<Rightarrow> 'a CacheService" where
  "evictLeastRecentlyUsed c =
     (case scanOldest (cache c) None None of
        None \<Rightarrow> c
      | Some oldestKey \<Rightarrow> if oldestKey \<noteq> [] then snd (delete oldestKey c) else c)"

text \<open>
  The \<open>while\<close> loop of \<open>set\<close>. It has no bound of its own, so it is a partial function:
  \<open>None\<close> is a loop that never exits.
\<close>

partial_function (option) evictLoop :: "rat \<Rightarrow> 'a CacheService \<Rightarrow> 'a CacheService option" where
  "evictLoop entrySize c =
     (if currentSize c + entrySize > maxSize (options c) \<and> length (cache c) > 0
      then evictLoop entrySize (evictLeastRecentlyUsed c)
      else Some c)"

definition set_c :: "('a \<Rightarrow> nat option) \<Rightarrow> string \<Rightarrow> 'a \<Rightarrow> int option \<Rightarrow> rat option \<Rightarrow> int \<Rightarrow> int
    \<Rightarrow> 'a CacheService \<Rightarrow> 'a CacheService option" where
  "set_c stringify_len key d ttl sz now1 now2 c =
     (let entrySize = or_else sz (estimateSize stringify_len d);
          expires_at = now1 + or_else ttl (defaultTTL (options c));
          c1 = (if map_of (cache c) key \<noteq> None then snd (delete key c) else c)
      in case evictLoop entrySize c1 of
           None \<Rightarrow> None
         | Some c2 \<Rightarrow>
             Some (c2\<lparr> cache := AList.update key
                                   \<lparr> data = d, timestamp = now2, size_e = entrySize, expires = expires_at \<rparr>
                                   (cache c2),
                        currentSize := currentSize c2 + entrySize \<rparr>))"

text \<open>
  \<open>get\<close> returns \<open>T | null\<close>: \<open>None\<close> is \<open>null\<close>. The first clock reading decides expiry,
  the second becomes the entry's new timestamp.
\<close>

definition get :: "string \<Rightarrow> int \<Rightarrow> int \<Rightarrow> 'a CacheService \<Rightarrow> 'a option \<times> 'a CacheService" where
  "get key now1 now2 c =
     (case map_of (cache c) key of
        None \<Rightarrow> (None, c)
      | Some entry \<Rightarrow>
          if now1 > expires entry then (None, snd (delete key c))
          else (Some (data entry),
                c\<lparr> cache := AList.update key (entry\<lparr> timestamp := now2 \<rparr>) (cache c) \<rparr>))"

definition has :: "string \<Rightarrow> int \<Rightarrow> 'a CacheService \<Rightarrow> bool \<times> 'a CacheService" where
  "has key now c =
     (case map_of (cache c) key of
        None \<Rightarrow> (False, c)
      | Some entry \<Rightarrow>
          if now > expires entry then (False, snd (delete key c))
          else (True, c))"

definition clear :: "'a CacheService \<Rightarrow> 'a CacheService" where
  "clear c = c\<lparr> cache := [], currentSize := 0 \<rparr>"

definition size_c :: "'a CacheService \<Rightarrow> nat" where
  "size_c c = length (cache c)"

definition sizeInBytes :: "'a CacheService \<Rightarrow> rat" where
  "sizeInBytes c = currentSize c"


definition cleanup :: "int \<Rightarrow> 'a CacheService \<Rightarrow> 'a CacheService" where
  "cleanup now c =
     (let keysToDelete = map fst (filter (\<lambda>(key, entry). now > expires entry) (cache c))
      in fold (\<lambda>key c'. snd (delete key c')) keysToDelete c)"

text \<open>Sequences of cache operations, each with the clock readings it takes.\<close>

datatype 'a cache_op =
    OpSet string 'a "int option" "rat option" int int
  | OpGet string int int
  | OpHas string int
  | OpDelete string
  | OpClear
  | OpCleanup int

fun apply_op :: "('a \<Rightarrow> nat option) \<Rightarrow> 'a cache_op \<Rightarrow> 'a CacheService \<Rightarrow> 'a CacheService option" where
  "apply_op sl (OpSet key d ttl sz now1 now2) c = set_c sl key d ttl sz now1 now2 c"
| "apply_op sl (OpGet key now1 now2) c = Some (snd (get key now1 now2 c))"
| "apply_op sl (OpHas key now) c = Some (snd (has key now c))"
| "apply_op sl (OpDelete key) c = Some (snd (delete key c))"
| "apply_op sl OpClear c = Some (clear c)"
| "apply_op sl (OpCleanup now) c = Some (cleanup now c)"

fun run :: "('a \<Rightarrow> nat option) \<Rightarrow> 'a cache_op list \<Rightarrow> 'a CacheService \<Rightarrow> 'a CacheService option" where
  "run sl [] c = Some c"
| "run sl (op # ops) c = (case apply_op sl op c of None \<Rightarrow> None | Some c' \<Rightarrow> run sl ops c')"

text \<open>
  The representation invariant of the \<open>Map\<close> (each key once) and the accounting invariant
  of the counter.
\<close>

definition total_size :: "(string \<times> 'a CacheEntry) list \<Rightarrow> rat" where
  "total_size es = sum_list (map (\<lambda>(key, entry). size_e entry) es)"

definition wf_cache :: "'a CacheService \<Rightarrow> bool" where
  "wf_cache c \<longleftrightarrow> distinct (map fst (cache c)) \<and> currentSize c = total_size (cache c)"


section \<open>The image cache (ImageCacheService)\<close>

text \<open>
  A promise either resolves with a value (\<open>Inr\<close>) or rejects with an error (\<open>Inl\<close>).
  \<open>compressImage\<close> loads the image and draws it on a canvas; it is a parameter that
  returns the outcome of that promise. The template literal renders the quality with the
  parameter \<open>show_quality\<close>. \<open>if (cached)\<close> is false for \<open>null\<close> and for the empty string.
  The \<open>catch\<close> block covers the whole of the population, so the promise of \<open>cacheImage\<close>
  never rejects. Operations of other callers that run while \<open>cacheImage\<close> awaits are not
  interleaved in the model.
\<close>

datatype error = Error string

definition ImageCacheService_new :: "string CacheService" where
  "ImageCacheService_new =
     CacheService_new (Some (200 * 1024 * 1024)) (Some (2 * 60 * 60 * 1000)) (Some (10 * 60 * 1000))"

text \<open>\<open>String.prototype.split\<close> with a one-character separator.\<close>

fun split_on :: "char \<Rightarrow> string \<Rightarrow> string list" where
  "split_on sep [] = [[]]"
| "split_on sep (x # xs) =
     (if x = sep then [] # split_on sep xs
      else (case split_on sep xs of
              [] \<Rightarrow> [[x]]
            | w # ws \<Rightarrow> (x # w) # ws))"

definition estimateImageSize :: "string \<Rightarrow> rat" where
  "estimateImageSize dataUrl =
     (case split_on CHR '','' dataUrl of
        _ # base64String # _ \<Rightarrow>
          if base64String = [] then 1024
          else (of_nat (length base64String) * 3) / 4
      | _ \<Rightarrow> 1024)"

definition cacheImage :: "(string \<Rightarrow> 'q \<Rightarrow> error + string) \<Rightarrow> ('q \<Rightarrow> string) \<Rightarrow> (string \<Rightarrow> nat option)
    \<Rightarrow> string \<Rightarrow> 'q \<Rightarrow> int \<Rightarrow> int \<Rightarrow> int \<Rightarrow> int
    \<Rightarrow> string CacheService \<Rightarrow> ((error + string) \<times> string CacheService) option" where
  "cacheImage compressImage show_quality stringify_len url quality now1 now2 now3 now4 c =
     (let cacheKey = url @ ''-'' @ show_quality quality;
          (cached, c1) = get cacheKey now1 now2 c;
          populate =
            (case compressImage url quality of
               Inl err \<Rightarrow> Some (Inr url, c1)
             | Inr compressedDataUrl \<Rightarrow>
                 (case set_c stringify_len cacheKey compressedDataUrl None
                         (Some (estimateImageSize compressedDataUrl)) now3 now4 c1 of
                    None \<Rightarrow> None
                  | Some c2 \<Rightarrow> Some (Inr compressedDataUrl, c2)))
      in case cached of
           None \<Rightarrow> populate
         | Some v \<Rightarrow> if v = [] then populate else Some (Inr v, c1))"

section \<open>The translation service (TranslationService)\<close>

text \<open>
  The service keeps its own two maps, \<open>cache\<close> and \<open>cacheExpiry\<close>; their iteration order
  is never used, so they are partial functions. A provider's \<open>translate\<close> is the outcome of
  its promise. \<open>calculateConfidence\<close> is floating-point arithmetic on the provider's name
  and the text; it is a parameter.
\<close>

record 'c TranslationResult =
  translatedText :: string
  provider :: string
  confidence :: 'c

record TranslationProvider =
  name :: string
  translate_p :: "string \<Rightarrow> string \<Rightarrow> string \<Rightarrow> error + string"

record 'c TranslationService =
  providers :: "TranslationProvider list"
  cache_t :: "string \<rightharpoonup> 'c TranslationResult"
  cacheExpiry :: "string \<rightharpoonup> int"

definition cacheTimeout :: int where
  "cacheTimeout = 24 * 60 * 60 * 1000"

definition isInCache :: "string \<Rightarrow> int \<Rightarrow> 'c TranslationService \<Rightarrow> bool \<times> 'c TranslationService" where
  "isInCache key now s =
     (let expiry = cacheExpiry s key;
          no_expiry = (case expiry of None \<Rightarrow> True | Some e \<Rightarrow> e = 0);
          expired = (case expiry of None \<Rightarrow> False | Some e \<Rightarrow> now > e)
      in if no_expiry \<or> expired
         then (False, s\<lparr> cache_t := (cache_t s)(key := None),
                         cacheExpiry := (cacheExpiry s)(key := None) \<rparr>)
         else (cache_t s key \<noteq> None, s))"

text \<open>The \<open>for\<close> loop over the providers: a failure is logged and the next one is tried.\<close>

fun tryProviders :: "(string \<Rightarrow> string \<Rightarrow> 'c) \<Rightarrow> TranslationProvider list \<Rightarrow> string \<Rightarrow> string \<Rightarrow> string
    \<Rightarrow> string \<Rightarrow> int \<Rightarrow> 'c TranslationService
    \<Rightarrow> (error + 'c TranslationResult) \<times> 'c TranslationService" where
  "tryProviders calculateConfidence [] text from to cacheKey now s =
     (Inl (Error ''All translation providers failed''), s)"
| "tryProviders calculateConfidence (p # ps) text from to cacheKey now s =
     (case translate_p p text from to of
        Inr translated \<Rightarrow>
          (let result = \<lparr> translatedText = translated, provider = name p,
                          confidence = calculateConfidence (name p) translated \<rparr>
           in (Inr result,
               s\<lparr> cache_t := (cache_t s)(cacheKey \<mapsto> result),
                  cacheExpiry := (cacheExpiry s)(cacheKey \<mapsto> now + cacheTimeout) \<rparr>))
      | Inl err \<Rightarrow> tryProviders calculateConfidence ps text from to cacheKey now s)"

text \<open>
  On a hit the source returns \<open>this.cache.get(cacheKey)!\<close>; \<open>isInCache\<close> has just found
  the key, so the other branch of the \<open>case\<close> is never taken.
\<close>

definition translate :: "(string \<Rightarrow> string \<Rightarrow> 'c) \<Rightarrow> string \<Rightarrow> string \<Rightarrow> string \<Rightarrow> int \<Rightarrow> int
    \<Rightarrow> 'c TranslationService \<Rightarrow> (error + 'c TranslationResult) \<times> 'c TranslationService" where
  "translate calculateConfidence text from to now1 now2 s =
     (let cacheKey = from @ ''-'' @ to @ ''-'' @ text;
          (inCache, s1) = isInCache cacheKey now1 s
      in case (if inCache then cache_t s1 cacheKey else None) of
           Some result \<Rightarrow> (Inr result, s1)
         | None \<Rightarrow> tryProviders calculateConfidence (providers s1) text from to cacheKey now2 s1)"

section \<open>The edit history of the application store (useAppStore)\<close>

text \<open>
  The store's state is a record; \<open>set({...})\<close> of the store replaces the fields it names
  and keeps the others. The project and the text-box snapshots are not inspected by the
  history operations and stay abstract (\<open>'p\<close>, \<open>'tb\<close>).
\<close>

datatype action_type = Move | Resize | Edit | Add | Delete

record 'tb EditAction =
  id_a :: string
  type_a :: action_type
  pageId :: string
  textBoxId :: string
  before :: 'tb
  after :: 'tb
  timestamp_a :: int
  description :: string

datatype theme = Light | Dark | System

record AppSettings =
  autoSave :: bool
  maxHistorySteps :: int
  defaultTargetLanguage :: string
  theme :: theme

text \<open>\<open>Partial<AppSettings>\<close>: \<open>None\<close> is a field the caller leaves out.\<close>

record PartialAppSettings =
  autoSave_p :: "bool option"
  maxHistorySteps_p :: "int option"
  defaultTargetLanguage_p :: "string option"
  theme_p :: "theme option"

record ('p, 'tb) AppState =
  project :: "'p option"
  currentPageIndex :: int
  selectedTextBox :: "(string \<times> string) option"
  isProcessing :: bool
  showHistoryPanel :: bool
  showExportPanel :: bool
  showSettingsPanel :: bool
  history :: "'tb EditAction list"
  historyIndex :: int
  settings :: AppSettings

definition defaultSettings :: AppSettings where
  "defaultSettings =
     \<lparr> autoSave = True, maxHistorySteps = 50, defaultTargetLanguage = ''en'', theme = System \<rparr>"

definition initialState :: "('p, 'tb) AppState" where
  "initialState =
     \<lparr> project = None, currentPageIndex = 0, selectedTextBox = None, isProcessing = False,
       showHistoryPanel = False, showExportPanel = False, showSettingsPanel = False,
       history = [], historyIndex = - 1, settings = defaultSettings \<rparr>"

text \<open>
  \<open>Array.prototype.slice(0, end)\<close>: a negative \<open>end\<close> counts from the end of the array,
  and the result is clamped to the array.
\<close>

definition slice0 :: "'a list \<Rightarrow> int \<Rightarrow> 'a list" where
  "slice0 xs end_ix =
     (let n = int (length xs);
          k = (if end_ix < 0 then max (n + end_ix) 0 else min end_ix n)
      in take (nat k) xs)"

text \<open>
  What \<open>undo\<close> and \<open>redo\<close> return: \<open>null\<close>, an action, or \<open>undefined\<close> when the array is
  read outside its bounds.
\<close>

datatype 'a js_result = JsNull | JsUndefined | JsValue 'a

definition js_index :: "'a list \<Rightarrow> int \<Rightarrow> 'a js_result" where
  "js_index xs i = (if 0 \<le> i \<and> i < int (length xs) then JsValue (xs ! nat i) else JsUndefined)"

text \<open>\<open>push\<close> appends; \<open>shift\<close> removes the first element (of an empty array, nothing).\<close>

definition addToHistory :: "'tb EditAction \<Rightarrow> ('p, 'tb) AppState \<Rightarrow> ('p, 'tb) AppState" where
  "addToHistory action s =
     (let pushed = slice0 (history s) (historyIndex s + 1) @ [action];
          newHistory = (if int (length pushed) > maxHistorySteps (settings s)
                        then tl pushed else pushed)
      in s\<lparr> history := newHistory, historyIndex := int (length newHistory) - 1 \<rparr>)"

definition undo :: "('p, 'tb) AppState \<Rightarrow> 'tb EditAction js_result \<times> ('p, 'tb) AppState" where
  "undo s =
     (if historyIndex s < 0 then (JsNull, s)
      else (js_index (history s) (historyIndex s), s\<lparr> historyIndex := historyIndex s - 1 \<rparr>))"

definition redo :: "('p, 'tb) AppState \<Rightarrow> 'tb EditAction js_result \<times> ('p, 'tb) AppState" where
  "redo s =
     (if historyIndex s \<ge> int (length (history s)) - 1 then (JsNull, s)
      else (js_index (history s) (historyIndex s + 1), s\<lparr> historyIndex := historyIndex s + 1 \<rparr>))"

definition clearHistory :: "('p, 'tb) AppState \<Rightarrow> ('p, 'tb) AppState" where
  "clearHistory s = s\<lparr> history := [], historyIndex := - 1 \<rparr>"

definition canUndo :: "('p, 'tb) AppState \<Rightarrow> bool" where
  "canUndo s \<longleftrightarrow> historyIndex s \<ge> 0"

definition canRedo :: "('p, 'tb) AppState \<Rightarrow> bool" where
  "canRedo s \<longleftrightarrow> historyIndex s < int (length (history s)) - 1"

definition merge_settings :: "AppSettings \<Rightarrow> PartialAppSettings \<Rightarrow> AppSettings" where
  "merge_settings old new =
     \<lparr> autoSave = (case autoSave_p new of Some v \<Rightarrow> v | None \<Rightarrow> autoSave old),
       maxHistorySteps = (case maxHistorySteps_p new of Some v \<Rightarrow> v | None \<Rightarrow> maxHistorySteps old),
       defaultTargetLanguage =
         (case defaultTargetLanguage_p new of Some v \<Rightarrow> v | None \<Rightarrow> defaultTargetLanguage old),
       theme = (case theme_p new of Some v \<Rightarrow> v | None \<Rightarrow> theme old) \<rparr>"

definition updateSettings :: "PartialAppSettings \<Rightarrow> ('p, 'tb) AppState \<Rightarrow> ('p, 'tb) AppState" where
  "updateSettings newSettings s = s\<lparr> settings := merge_settings (settings s) newSettings \<rparr>"

text \<open>Sequences of history operations.\<close>

datatype 'tb history_op =
    AddToHistory "'tb EditAction"
  | Undo
  | Redo
  | ClearHistory
  | UpdateSettings PartialAppSettings

fun history_step :: "'tb history_op \<Rightarrow> ('p, 'tb) AppState \<Rightarrow> ('p, 'tb) AppState" where
  "history_step (AddToHistory a) s = addToHistory a s"
| "history_step Undo s = snd (undo s)"
| "history_step Redo s = snd (redo s)"
| "history_step ClearHistory s = clearHistory s"
| "history_step (UpdateSettings ns) s = updateSettings ns s"

fun run_history :: "'tb history_op list \<Rightarrow> ('p, 'tb) AppState \<Rightarrow> ('p, 'tb) AppState" where
  "run_history [] s = s"
| "run_history (op # ops) s = run_history ops (history_step op s)"

text \<open>
  A sequence in which no \<open>updateSettings\<close> call sets \<open>maxHistorySteps\<close> below the length
  the log has at that moment.
\<close>

fun settings_cover_log :: "'tb history_op list \<Rightarrow> ('p, 'tb) AppState \<Rightarrow> bool" where
  "settings_cover_log [] s = True"
| "settings_cover_log (op # ops) s =
     ((case op of
         UpdateSettings ns \<Rightarrow>
           (case maxHistorySteps_p ns of
              Some m \<Rightarrow> int (length (history s)) \<le> m
            | None \<Rightarrow> True)
       | _ \<Rightarrow> True)
      \<and> settings_cover_log ops (history_step op s))"


section \<open>Example inputs\<close>

text \<open>
  The length of the JSON serialisation of a string without characters that need escaping:
  the string between two quotes.
\<close>

definition plain_stringify_len :: "string \<Rightarrow> nat option" where
  "plain_stringify_len v = Some (length v + 2)"

text \<open>An image that fails to load, a provider that is unavailable, and no confidence score.\<close>

definition failing_compress :: "string \<Rightarrow> string \<Rightarrow> error + string" where
  "failing_compress url quality = Inl (Error ''image failed to load'')"

definition failing_translate :: "string \<Rightarrow> string \<Rightarrow> string \<Rightarrow> error + string" where
  "failing_translate text from to = Inl (Error ''provider unavailable'')"

definition unavailable_provider :: TranslationProvider where
  "unavailable_provider = \<lparr> name = ''Unavailable'', translate_p = failing_translate \<rparr>"

definition no_confidence :: "string \<Rightarrow> string \<Rightarrow> unit" where
  "no_confidence providerName translated = ()"

definition empty_translation_service :: "TranslationProvider list \<Rightarrow> unit TranslationService" where
  "empty_translation_service ps = \<lparr> providers = ps, cache_t = Map.empty, cacheExpiry = Map.empty \<rparr>"

text \<open>
  An edit action as \<open>updateTextBox\<close> builds it, with the snapshots left out, and a settings
  update that names \<open>maxHistorySteps\<close> only.
\<close>

definition edit_action :: "string \<Rightarrow> unit EditAction" where
  "edit_action i =
     \<lparr> id_a = i, type_a = Edit, pageId = ''page-1'', textBoxId = ''tb-1'', before = (), after = (),
       timestamp_a = 0, description = ''Edited text box'' \<rparr>"

definition only_maxHistorySteps :: "int \<Rightarrow> PartialAppSettings" where
  "only_maxHistorySteps m =
     \<lparr> autoSave_p = None, maxHistorySteps_p = Some m, defaultTargetLanguage_p = None, theme_p = None \<rparr>"

definition initialStore :: "(unit, unit) AppState" where
  "initialStore = initialState"

section \<open>Properties of the cache engine\<close>

subsection \<open>Accounting of sizes\<close>

lemma total_size_Nil: "total_size [] = 0"
  by (simp add: total_size_def)

lemma total_size_Cons: "total_size ((k, e) # es) = size_e e + total_size es"
  by (simp add: total_size_def)

lemma total_size_delete_absent: "map_of es k = None \<Longrightarrow> AList.delete k es = es"
  by (induction es) (auto simp: AList.delete_eq split: if_splits)

lemma total_size_delete:
  "distinct (map fst es) \<Longrightarrow> map_of es k = Some e \<Longrightarrow>
   total_size (AList.delete k es) = total_size es - size_e e"
proof (induction es)
  case Nil
  then show ?case by simp
next
  case (Cons p es)
  obtain k' e' where p: "p = (k', e')" by (cases p)
  show ?case
  proof (cases "k' = k")
    case True
    with Cons.prems p have "e' = e" and "map_of es k = None"
      by (auto simp: map_of_eq_None_iff)
    then show ?thesis using True p
      by (simp add: total_size_Cons total_size_delete_absent)
  next
    case False
    with Cons p show ?thesis
      by (simp add: total_size_Cons)
  qed
qed



lemma length_delete_present:
  "map_of es k = Some e \<Longrightarrow> length (AList.delete k es) < length es"
  by (induction es) (auto simp: less_Suc_eq_le AList.delete_eq split: if_splits)

lemma wf_cache_delete: "wf_cache c \<Longrightarrow> wf_cache (snd (delete k c))"
  by (auto simp: wf_cache_def delete_def total_size_delete distinct_delete split: option.splits)

lemma options_delete: "options (snd (delete k c)) = options c"
  by (simp add: delete_def split: option.splits)






lemma wf_cache_evict: "wf_cache c \<Longrightarrow> wf_cache (evictLeastRecentlyUsed c)"
  by (simp add: evictLeastRecentlyUsed_def wf_cache_delete split: option.splits)

lemma options_evict: "options (evictLeastRecentlyUsed c) = options c"
  by (simp add: evictLeastRecentlyUsed_def options_delete split: option.splits)


lemma keys_delete_subset: "fst ` set (cache (snd (delete k c))) \<subseteq> fst ` set (cache c)"
  by (auto simp: delete_def AList.delete_eq split: option.splits)

lemma keys_evict_subset: "fst ` set (cache (evictLeastRecentlyUsed c)) \<subseteq> fst ` set (cache c)"
proof (cases "scanOldest (cache c) None None")
  case None
  then show ?thesis by (simp add: evictLeastRecentlyUsed_def)
next
  case (Some k)
  then show ?thesis
    using keys_delete_subset[of k c] by (simp add: evictLeastRecentlyUsed_def)
qed

lemma evictLoop_Some:
  assumes "evictLoop s c = Some c'"
  shows "(wf_cache c \<longrightarrow> wf_cache c') \<and> options c' = options c \<and>
         fst ` set (cache c') \<subseteq> fst ` set (cache c) \<and>
         \<not> (currentSize c' + s > maxSize (options c') \<and> length (cache c') > 0)"
proof -
  let ?P = "\<lambda>(s::rat) (c::'a CacheService) c'.
      (wf_cache c \<longrightarrow> wf_cache c') \<and> options c' = options c \<and>
      fst ` set (cache c') \<subseteq> fst ` set (cache c) \<and>
      \<not> (currentSize c' + s > maxSize (options c') \<and> length (cache c') > 0)"
  have "?P s c c'"
  proof (rule evictLoop.raw_induct[where P = ?P, OF _ assms])
    fix f :: "rat \<Rightarrow> 'a CacheService \<Rightarrow> 'a CacheService option" and s c c'
    assume IH: "\<And>s c c'. f s c = Some c' \<Longrightarrow> ?P s c c'"
      and eq: "(if currentSize c + s > maxSize (options c) \<and> length (cache c) > 0
                then f s (evictLeastRecentlyUsed c) else Some c) = Some c'"
    show "?P s c c'"
    proof (cases "currentSize c + s > maxSize (options c) \<and> length (cache c) > 0")
      case True
      with eq have "f s (evictLeastRecentlyUsed c) = Some c'" by simp
      from IH[OF this] have "?P s (evictLeastRecentlyUsed c) c'" .
      moreover from this have "fst ` set (cache c') \<subseteq> fst ` set (cache c)"
        using keys_evict_subset[of c] by (meson subset_trans)
      ultimately show ?thesis
        by (simp add: wf_cache_evict options_evict)
    next
      case False
      with eq have "c' = c" by auto
      with False show ?thesis by simp
    qed
  qed
  then show ?thesis .
qed

lemma scanOldest_result:
  "scanOldest es ok ot = Some k \<Longrightarrow> ok = Some k \<or> k \<in> fst ` set es"
  by (induction es ok ot rule: scanOldest.induct) (auto split: if_splits)

lemma scanOldest_None: "scanOldest es ok ot = None \<Longrightarrow> ok = None \<and> (ot = None \<longrightarrow> es = [])"
  by (induction es ok ot rule: scanOldest.induct)
     (auto split: if_splits elim: before_oldest.elims)

lemma scanOldest_nonempty: "es \<noteq> [] \<Longrightarrow> scanOldest es None None \<noteq> None"
  using scanOldest_None[of es None None] by auto

lemma scanOldest_in_cache:
  "scanOldest es None None = Some k \<Longrightarrow> map_of es k \<noteq> None"
  using scanOldest_result[of es None None k] by (auto simp: map_of_eq_None_iff)

lemma evict_shrinks:
  assumes "cache c \<noteq> []" and "[] \<notin> fst ` set (cache c)"
  shows "length (cache (evictLeastRecentlyUsed c)) < length (cache c)"
proof -
  from assms(1) obtain k where k: "scanOldest (cache c) None None = Some k"
    using scanOldest_nonempty by blast
  then obtain e where e: "map_of (cache c) k = Some e"
    using scanOldest_in_cache by blast
  then have "k \<in> fst ` set (cache c)"
    by (metis map_of_eq_None_iff option.distinct(1))
  with assms(2) have "k \<noteq> []" by blast
  with k e show ?thesis
    by (simp add: evictLeastRecentlyUsed_def delete_def length_delete_present)
qed

lemma evictLoop_terminates:
  "[] \<notin> fst ` set (cache c) \<Longrightarrow> \<exists>c'. evictLoop s c = Some c'"
proof (induction "length (cache c)" arbitrary: c rule: less_induct)
  case less
  show ?case
  proof (cases "currentSize c + s > maxSize (options c) \<and> length (cache c) > 0")
    case True
    then have ne: "cache c \<noteq> []" by auto
    have "length (cache (evictLeastRecentlyUsed c)) < length (cache c)"
      using evict_shrinks[OF ne less.prems] .
    moreover have "[] \<notin> fst ` set (cache (evictLeastRecentlyUsed c))"
      using keys_evict_subset[of c] less.prems by blast
    ultimately obtain c' where "evictLoop s (evictLeastRecentlyUsed c) = Some c'"
      using less.hyps by blast
    with True show ?thesis
      by (subst evictLoop.simps) simp
  next
    case False
    then show ?thesis
      by (subst evictLoop.simps) auto
  qed
qed

text \<open>A loop whose eviction step changes nothing while its condition holds never exits.\<close>

lemma evictLoop_stuck:
  assumes cond: "currentSize c + s > maxSize (options c)" "length (cache c) > 0"
    and stuck: "evictLeastRecentlyUsed c = c"
  shows "evictLoop s c = None"
proof (rule ccontr)
  assume "evictLoop s c \<noteq> None"
  then obtain c' where some: "evictLoop s c = Some c'" by auto
  let ?P = "\<lambda>(s::rat) (c::'a CacheService) (c'::'a CacheService).
      \<not> (currentSize c + s > maxSize (options c) \<and> length (cache c) > 0 \<and> evictLeastRecentlyUsed c = c)"
  have "?P s c c'"
  proof (rule evictLoop.raw_induct[where P = ?P, OF _ some])
    fix f :: "rat \<Rightarrow> 'a CacheService \<Rightarrow> 'a CacheService option" and s c c'
    assume IH: "\<And>s c c'. f s c = Some c' \<Longrightarrow> ?P s c c'"
      and eq: "(if currentSize c + s > maxSize (options c) \<and> length (cache c) > 0
                then f s (evictLeastRecentlyUsed c) else Some c) = Some c'"
    show "?P s c c'"
    proof
      assume st: "currentSize c + s > maxSize (options c) \<and> length (cache c) > 0 \<and> evictLeastRecentlyUsed c = c"
      with eq have "f s c = Some c'" by simp
      from IH[OF this] st show False by simp
    qed
  qed
  with cond stuck show False by simp
qed


lemma map_of_delete_key: "map_of (cache (snd (delete k c))) k = None"
  by (simp add: delete_def delete_conv split: option.splits)











subsection \<open>Lazy expiry\<close>

lemma length_delete_distinct:
  "distinct (map fst es) \<Longrightarrow> map_of es k = Some e \<Longrightarrow> Suc (length (AList.delete k es)) = length es"
proof (induction es)
  case Nil
  then show ?case by simp
next
  case (Cons p es)
  obtain k' e' where p: "p = (k', e')" by (cases p)
  show ?case
  proof (cases "k' = k")
    case True
    with Cons.prems p have "map_of es k = None"
      by (auto simp: map_of_eq_None_iff)
    with True p show ?thesis
      by (simp add: total_size_delete_absent)
  next
    case False
    with Cons p show ?thesis by simp
  qed
qed

text \<open>
  Claim C6. When the entry under a key has expired (the clock reads strictly later than
  its \<open>expires\<close>), \<open>get\<close> returns \<open>null\<close> and \<open>has\<close> returns \<open>false\<close>, either call removes
  the entry, and \<open>size()\<close> is one less afterwards. Whatever the clock reads, \<open>get\<close> returns
  the entry's data only when the reading is not past \<open>expires\<close>.
\<close>

theorem expired_entry_is_removed:
  assumes "distinct (map fst (cache c))"
    and "map_of (cache c) key = Some entry"
    and "now > expires entry"
  shows "fst (get key now now2 c) = None
       \<and> map_of (cache (snd (get key now now2 c))) key = None
       \<and> Suc (size_c (snd (get key now now2 c))) = size_c c
       \<and> fst (has key now c) = False
       \<and> map_of (cache (snd (has key now c))) key = None
       \<and> Suc (size_c (snd (has key now c))) = size_c c
       \<and> (\<forall>t t'. fst (get key t t' c) \<noteq> None \<longrightarrow> t \<le> expires entry)"
proof -
  have del: "map_of (cache (snd (delete key c))) key = None"
    by (rule map_of_delete_key)
  have len: "Suc (size_c (snd (delete key c))) = size_c c"
    using assms(1,2) by (simp add: size_c_def delete_def length_delete_distinct)
  have g: "get key now now2 c = (None, snd (delete key c))"
    using assms(2,3) by (simp add: get_def)
  have h: "has key now c = (False, snd (delete key c))"
    using assms(2,3) by (simp add: has_def)
  have never: "\<forall>t t'. fst (get key t t' c) \<noteq> None \<longrightarrow> t \<le> expires entry"
    using assms(2) by (simp add: get_def)
  from del len g h never show ?thesis by simp
qed

theorem expired_entry_is_removed_witness:
  "distinct (map fst [(''k'', \<lparr> data = ''v'', timestamp = 1, size_e = 10, expires = 100 \<rparr>)])
   \<and> (101::int) > 100
   \<and> fst (get ''k'' 101 102
        \<lparr> cache = [(''k'', \<lparr> data = ''v'', timestamp = 1, size_e = 10, expires = 100 \<rparr>)],
          currentSize = 10,
          options = \<lparr> maxSize = 1000, defaultTTL = 99, cleanupInterval = 300000 \<rparr> \<rparr>) = None
   \<and> size_c (snd (get ''k'' 101 102
        \<lparr> cache = [(''k'', \<lparr> data = ''v'', timestamp = 1, size_e = 10, expires = 100 \<rparr>)],
          currentSize = 10,
          options = \<lparr> maxSize = 1000, defaultTTL = 99, cleanupInterval = 300000 \<rparr> \<rparr>)) = 0
   \<and> fst (has ''k'' 101
        \<lparr> cache = [(''k'', \<lparr> data = ''v'', timestamp = 1, size_e = 10, expires = 100 \<rparr>)],
          currentSize = 10,
          options = \<lparr> maxSize = 1000, defaultTTL = 99, cleanupInterval = 300000 \<rparr> \<rparr>) = False
   \<and> fst (get ''k'' 100 102
        \<lparr> cache = [(''k'', \<lparr> data = ''v'', timestamp = 1, size_e = 10, expires = 100 \<rparr>)],
          currentSize = 10,
          options = \<lparr> maxSize = 1000, defaultTTL = 99, cleanupInterval = 300000 \<rparr> \<rparr>) \<noteq> None"
proof -
  let ?e = "\<lparr> data = ''v'', timestamp = 1, size_e = 10, expires = 100 \<rparr> :: string CacheEntry"
  let ?c = "\<lparr> cache = [(''k'', ?e)], currentSize = 10,
              options = \<lparr> maxSize = 1000, defaultTTL = 99, cleanupInterval = 300000 \<rparr> \<rparr>"
  have d: "distinct (map fst (cache ?c))" by simp
  have m: "map_of (cache ?c) ''k'' = Some ?e" by simp
  have x: "101 > expires ?e" by simp
  have live: "fst (get ''k'' 100 102 ?c) \<noteq> None" by (simp add: get_def)
  from expired_entry_is_removed[OF d m x, of 102] live show ?thesis
    by (simp add: size_c_def)
qed

subsection \<open>The eviction loop\<close>

lemma entries_delete_subset: "set (cache (snd (delete k c))) \<subseteq> set (cache c)"
  by (auto simp: delete_def AList.delete_eq split: option.splits)

lemma entries_evict_subset: "set (cache (evictLeastRecentlyUsed c)) \<subseteq> set (cache c)"
proof (cases "scanOldest (cache c) None None")
  case None
  then show ?thesis by (simp add: evictLeastRecentlyUsed_def)
next
  case (Some k)
  then show ?thesis
    using entries_delete_subset[of k c] by (simp add: evictLeastRecentlyUsed_def)
qed

lemma evictLoop_entries:
  assumes "evictLoop s c = Some c'"
  shows "set (cache c') \<subseteq> set (cache c)"
proof -
  let ?P = "\<lambda>(s::rat) (c::'a CacheService) (c'::'a CacheService). set (cache c') \<subseteq> set (cache c)"
  have "?P s c c'"
  proof (rule evictLoop.raw_induct[where P = ?P, OF _ assms])
    fix f :: "rat \<Rightarrow> 'a CacheService \<Rightarrow> 'a CacheService option" and s c c'
    assume IH: "\<And>s c c'. f s c = Some c' \<Longrightarrow> ?P s c c'"
      and eq: "(if currentSize c + s > maxSize (options c) \<and> length (cache c) > 0
                then f s (evictLeastRecentlyUsed c) else Some c) = Some c'"
    show "?P s c c'"
    proof (cases "currentSize c + s > maxSize (options c) \<and> length (cache c) > 0")
      case True
      with eq have "f s (evictLeastRecentlyUsed c) = Some c'" by simp
      from IH[OF this] entries_evict_subset[of c] show ?thesis
        by (rule subset_trans)
    next
      case False
      with eq show ?thesis by auto
    qed
  qed
  then show ?thesis .
qed

lemma total_size_nonneg: "\<forall>(k, e) \<in> set es. 0 \<le> size_e e \<Longrightarrow> 0 \<le> total_size es"
  by (induction es) (auto simp: total_size_Nil total_size_Cons)

lemma set_c_returns:
  assumes "[] \<notin> fst ` set (cache c)"
  shows "\<exists>c'. set_c sl key d ttl sz now1 now2 c = Some c'"
proof -
  let ?c1 = "if map_of (cache c) key \<noteq> None then snd (delete key c) else c"
  have "[] \<notin> fst ` set (cache ?c1)"
    using assms keys_delete_subset[of key c] by auto
  from evictLoop_terminates[OF this]
  obtain c2 where "evictLoop (or_else sz (estimateSize sl d)) ?c1 = Some c2" by blast
  then show ?thesis
    by (simp add: set_c_def Let_def)
qed


lemma oversized_set_without_empty_key:
  assumes wf: "wf_cache c"
    and no_empty: "[] \<notin> fst ` set (cache c)"
    and nonneg: "\<forall>(k, e) \<in> set (cache c). 0 \<le> size_e e"
    and big: "or_else sz (estimateSize sl d) > maxSize (options c)"
  shows "\<exists>c' e. set_c sl key d ttl sz now1 now2 c = Some c' \<and> cache c' = [(key, e)] \<and> data e = d
           \<and> size_e e = or_else sz (estimateSize sl d)"
proof -
  define s where "s = or_else sz (estimateSize sl d)"
  define c1 where "c1 = (if map_of (cache c) key \<noteq> None then snd (delete key c) else c)"
  have wf1: "wf_cache c1" and opt1: "options c1 = options c"
    using wf by (auto simp: c1_def wf_cache_delete options_delete)
  have sub1: "set (cache c1) \<subseteq> set (cache c)"
    using entries_delete_subset[of key c] by (auto simp: c1_def)
  then have "[] \<notin> fst ` set (cache c1)" using no_empty by auto
  from evictLoop_terminates[OF this] obtain c2 where loop: "evictLoop s c1 = Some c2" by blast
  from evictLoop_Some[OF loop] wf1 opt1
  have wf2: "wf_cache c2" and opt2: "options c2 = options c"
    and exit: "\<not> (currentSize c2 + s > maxSize (options c2) \<and> length (cache c2) > 0)"
    by auto
  from evictLoop_entries[OF loop] sub1 have "set (cache c2) \<subseteq> set (cache c)" by blast
  with nonneg have "\<forall>(k, e) \<in> set (cache c2). 0 \<le> size_e e" by blast
  from total_size_nonneg[OF this] wf2 have "0 \<le> currentSize c2" by (simp add: wf_cache_def)
  with big opt2 have "currentSize c2 + s > maxSize (options c2)" by (simp add: s_def)
  with exit have empty: "cache c2 = []" by simp
  have "set_c sl key d ttl sz now1 now2 c =
      (case evictLoop s c1 of
         None \<Rightarrow> None
       | Some c2 \<Rightarrow>
           Some (c2\<lparr> cache := AList.update key
                                 \<lparr> data = d, timestamp = now2, size_e = s,
                                   expires = now1 + or_else ttl (defaultTTL (options c)) \<rparr>
                                 (cache c2),
                      currentSize := currentSize c2 + s \<rparr>))"
    by (simp only: set_c_def Let_def s_def c1_def)
  with loop empty show ?thesis
    by (simp add: s_def)
qed

text \<open>
  Claim C9, at an input where it fails. An entry is stored under the empty key in a cache
  of \<open>maxSize\<close> 10; the next \<open>set\<close> needs room, the scan selects the empty key, the
  truthiness test skips the deletion, and the loop never exits: the sequence has no result.
\<close>

theorem set_never_returns_after_empty_key:
  "run plain_stringify_len
     [OpSet [] ''x'' None (Some 5) 1 1, OpSet ''k'' ''y'' None (Some 10) 2 2]
     (CacheService_new (Some 10) None None) = None"
proof -
  let ?c0 = "\<lparr> cache = [([], \<lparr> data = ''x'', timestamp = 1, size_e = 5, expires = 86400001 \<rparr>)],
               currentSize = 5,
               options = \<lparr> maxSize = 10, defaultTTL = 86400000, cleanupInterval = 300000 \<rparr> \<rparr>"
  have first: "set_c plain_stringify_len [] ''x'' None (Some 5) 1 1 (CacheService_new (Some 10) None None)
      = Some ?c0"
    by (simp add: set_c_def or_else_def CacheService_new_def evictLoop.simps)
  have "evictLeastRecentlyUsed ?c0 = ?c0"
    by (simp add: evictLeastRecentlyUsed_def)
  then have "evictLoop 10 ?c0 = None"
    by (intro evictLoop_stuck) simp_all
  then have "set_c plain_stringify_len ''k'' ''y'' None (Some 10) 2 2 ?c0 = None"
    by (simp add: set_c_def or_else_def)
  with first show ?thesis by simp
qed

text \<open>
  Claim C8, at an input where it fails. The cache holds one entry under the empty key;
  a \<open>set\<close> of a value larger than \<open>maxSize\<close> has to evict it first and never returns, so
  the oversized entry is never inserted. The second conjunct shows that this cache is the
  result of one \<open>set\<close> call on a fresh cache.
\<close>

theorem oversized_set_never_returns_after_empty_key:
  "set_c plain_stringify_len ''page'' ''big'' None (Some 2000) 2 2
     \<lparr> cache = [([], \<lparr> data = ''x'', timestamp = 1, size_e = 5, expires = 86400001 \<rparr>)],
       currentSize = 5,
       options = \<lparr> maxSize = 1000, defaultTTL = 86400000, cleanupInterval = 300000 \<rparr> \<rparr> = None
   \<and> run plain_stringify_len [OpSet [] ''x'' None (Some 5) 1 1]
       (CacheService_new (Some 1000) None None)
     = Some \<lparr> cache = [([], \<lparr> data = ''x'', timestamp = 1, size_e = 5, expires = 86400001 \<rparr>)],
              currentSize = 5,
              options = \<lparr> maxSize = 1000, defaultTTL = 86400000, cleanupInterval = 300000 \<rparr> \<rparr>"
proof -
  let ?c0 = "\<lparr> cache = [([], \<lparr> data = ''x'', timestamp = 1, size_e = 5, expires = 86400001 \<rparr>)],
               currentSize = 5,
               options = \<lparr> maxSize = 1000, defaultTTL = 86400000, cleanupInterval = 300000 \<rparr> \<rparr>"
  have first: "run plain_stringify_len [OpSet [] ''x'' None (Some 5) 1 1]
      (CacheService_new (Some 1000) None None) = Some ?c0"
    by (simp add: set_c_def or_else_def CacheService_new_def evictLoop.simps)
  have "evictLeastRecentlyUsed ?c0 = ?c0"
    by (simp add: evictLeastRecentlyUsed_def)
  then have "evictLoop 2000 ?c0 = None"
    by (intro evictLoop_stuck) simp_all
  then have "set_c plain_stringify_len ''page'' ''big'' None (Some 2000) 2 2 ?c0 = None"
    by (simp add: set_c_def or_else_def)
  with first show ?thesis by simp
qed



subsection \<open>Eviction order\<close>
















section \<open>Properties of the populate-on-miss operations\<close>

lemma tryProviders_all_fail:
  "\<forall>p \<in> set ps. \<exists>err. translate_p p text from to = Inl err \<Longrightarrow>
   tryProviders cc ps text from to key now s = (Inl (Error ''All translation providers failed''), s)"
  by (induction ps) auto

lemma isInCache_miss:
  "fst (isInCache key now s) = False \<Longrightarrow> cache_t (snd (isInCache key now s)) key = None"
  by (auto simp: isInCache_def Let_def split: if_splits)

lemma get_null_absent: "fst (get key now1 now2 c) = None \<Longrightarrow> map_of (cache (snd (get key now1 now2 c))) key = None"
  by (auto simp: get_def map_of_delete_key split: option.splits if_splits)

text \<open>
  Claim C2, as the code has it. When the external operation fails after a miss, nothing
  is stored: \<open>cacheImage\<close> leaves the cache as its own lookup left it (with no entry under
  the key when the lookup returned \<open>null\<close>) and \<open>translate\<close> leaves no result under the
  key. The failure itself does not reach the caller unchanged: \<open>cacheImage\<close> catches it and
  resolves with the original URL, and \<open>translate\<close> catches each provider's failure, goes on
  to the next provider, and rejects with its own error once every provider has failed.
\<close>

theorem failed_compute_stores_nothing:
  "(compressImage url quality = Inl err
      \<and> (case fst (get (url @ ''-'' @ show_quality quality) now1 now2 c) of
            Some v \<Rightarrow> v = [] | None \<Rightarrow> True)
     \<longrightarrow> cacheImage compressImage show_quality sl url quality now1 now2 now3 now4 c
           = Some (Inr url, snd (get (url @ ''-'' @ show_quality quality) now1 now2 c))
         \<and> (fst (get (url @ ''-'' @ show_quality quality) now1 now2 c) = None
              \<longrightarrow> map_of (cache (snd (get (url @ ''-'' @ show_quality quality) now1 now2 c)))
                     (url @ ''-'' @ show_quality quality) = None))
   \<and> ((\<forall>p \<in> set (providers s). \<exists>e. translate_p p text from to = Inl e)
      \<and> fst (isInCache (from @ ''-'' @ to @ ''-'' @ text) t1 s) = False
     \<longrightarrow> translate cc text from to t1 t2 s
           = (Inl (Error ''All translation providers failed''),
              snd (isInCache (from @ ''-'' @ to @ ''-'' @ text) t1 s))
         \<and> cache_t (snd (translate cc text from to t1 t2 s)) (from @ ''-'' @ to @ ''-'' @ text) = None)"
proof (intro conjI impI)
  assume a: "compressImage url quality = Inl err
      \<and> (case fst (get (url @ ''-'' @ show_quality quality) now1 now2 c) of
            Some v \<Rightarrow> v = [] | None \<Rightarrow> True)"
  then show "cacheImage compressImage show_quality sl url quality now1 now2 now3 now4 c
           = Some (Inr url, snd (get (url @ ''-'' @ show_quality quality) now1 now2 c))"
    by (auto simp: cacheImage_def Let_def split: prod.splits option.splits)
next
  assume "fst (get (url @ ''-'' @ show_quality quality) now1 now2 c) = None"
  then show "map_of (cache (snd (get (url @ ''-'' @ show_quality quality) now1 now2 c)))
                     (url @ ''-'' @ show_quality quality) = None"
    by (rule get_null_absent)
next
  let ?key = "from @ ''-'' @ to @ ''-'' @ text"
  assume a: "(\<forall>p \<in> set (providers s). \<exists>e. translate_p p text from to = Inl e)
      \<and> fst (isInCache ?key t1 s) = False"
  have prov: "providers (snd (isInCache ?key t1 s)) = providers s"
    by (simp add: isInCache_def Let_def)
  have tr: "translate cc text from to t1 t2 s
      = tryProviders cc (providers s) text from to ?key t2 (snd (isInCache ?key t1 s))"
  proof -
    obtain b s1 where eq: "isInCache ?key t1 s = (b, s1)" by (cases "isInCache ?key t1 s")
    with a have "b = False" by simp
    with eq prov show ?thesis by (simp add: translate_def)
  qed
  with a show r: "translate cc text from to t1 t2 s
           = (Inl (Error ''All translation providers failed''), snd (isInCache ?key t1 s))"
    by (simp add: tryProviders_all_fail)
  from a show "cache_t (snd (translate cc text from to t1 t2 s)) ?key = None"
    by (simp add: r isInCache_miss)
qed

theorem failed_compute_stores_nothing_witness:
  "failing_compress ''page.png'' ''0.8'' = Inl (Error ''image failed to load'')
   \<and> fst (get (''page.png'' @ ''-'' @ id ''0.8'') 1 1 ImageCacheService_new) = None
   \<and> cacheImage failing_compress id plain_stringify_len ''page.png'' ''0.8'' 1 1 2 2 ImageCacheService_new
       = Some (Inr ''page.png'', snd (get (''page.png'' @ ''-'' @ id ''0.8'') 1 1 ImageCacheService_new))
   \<and> providers (empty_translation_service [unavailable_provider]) = [unavailable_provider]
   \<and> translate_p unavailable_provider ''hello'' ''en'' ''fr'' = Inl (Error ''provider unavailable'')
   \<and> fst (isInCache (''en'' @ ''-'' @ ''fr'' @ ''-'' @ ''hello'') 1
            (empty_translation_service [unavailable_provider])) = False
   \<and> cache_t (snd (translate no_confidence ''hello'' ''en'' ''fr'' 1 1
                     (empty_translation_service [unavailable_provider])))
        (''en'' @ ''-'' @ ''fr'' @ ''-'' @ ''hello'') = None"
proof -
  have h1: "failing_compress ''page.png'' ''0.8'' = Inl (Error ''image failed to load'')"
    by (simp add: failing_compress_def)
  have h2: "fst (get (''page.png'' @ ''-'' @ id ''0.8'') 1 1 ImageCacheService_new) = None"
    by (simp add: get_def ImageCacheService_new_def CacheService_new_def)
  have h3: "\<forall>p \<in> set (providers (empty_translation_service [unavailable_provider])).
         \<exists>e. translate_p p ''hello'' ''en'' ''fr'' = Inl e"
    by (simp add: empty_translation_service_def unavailable_provider_def failing_translate_def)
  have h4: "fst (isInCache (''en'' @ ''-'' @ ''fr'' @ ''-'' @ ''hello'') 1
            (empty_translation_service [unavailable_provider])) = False"
    by (simp add: isInCache_def empty_translation_service_def)
  from failed_compute_stores_nothing[of failing_compress "''page.png''" "''0.8''"
      "Error ''image failed to load''" id 1 1 ImageCacheService_new plain_stringify_len 2 2
      "empty_translation_service [unavailable_provider]" "''hello''" "''en''" "''fr''" 1 no_confidence 1]
    h1 h2 h3 h4
  show ?thesis
    by (simp add: isInCache_def empty_translation_service_def unavailable_provider_def
        failing_translate_def)
qed


text \<open>
  Claim C2 as stated fails on both operations: \<open>cacheImage\<close> answers a failed compression
  with a value, the original URL, and \<open>translate\<close> answers an unavailable provider with an
  error that is not the provider's.
\<close>

theorem failure_replaced_not_propagated:
  "cacheImage failing_compress id plain_stringify_len ''page.png'' ''0.8'' 1 1 2 2 ImageCacheService_new
     = Some (Inr ''page.png'', ImageCacheService_new)
   \<and> failing_compress ''page.png'' ''0.8'' = Inl (Error ''image failed to load'')
   \<and> fst (translate no_confidence ''hello'' ''en'' ''fr'' 1 1
            (empty_translation_service [unavailable_provider]))
     = Inl (Error ''All translation providers failed'')
   \<and> translate_p unavailable_provider ''hello'' ''en'' ''fr'' = Inl (Error ''provider unavailable'')"
  by (simp add: cacheImage_def failing_compress_def get_def ImageCacheService_new_def
      CacheService_new_def translate_def isInCache_def empty_translation_service_def
      unavailable_provider_def failing_translate_def)



section \<open>Properties of the edit history\<close>


lemma length_slice0: "length (slice0 xs e) \<le> length xs"
  by (simp add: slice0_def Let_def)

lemma addToHistory_depth:
  assumes "int (length (history s)) \<le> maxHistorySteps (settings s)"
  shows "int (length (history (addToHistory a s))) \<le> maxHistorySteps (settings (addToHistory a s))"
proof -
  have "length (slice0 (history s) (historyIndex s + 1)) \<le> length (history s)"
    by (rule length_slice0)
  with assms show ?thesis
    by (auto simp: addToHistory_def Let_def)
qed

lemma history_step_depth:
  assumes "int (length (history s)) \<le> maxHistorySteps (settings s)"
    and "case op of UpdateSettings ns \<Rightarrow>
           (case maxHistorySteps_p ns of Some m \<Rightarrow> int (length (history s)) \<le> m | None \<Rightarrow> True)
         | _ \<Rightarrow> True"
  shows "int (length (history (history_step op s))) \<le> maxHistorySteps (settings (history_step op s))"
proof (cases op)
  case (AddToHistory a)
  with assms(1) show ?thesis by (simp add: addToHistory_depth)
next
  case Undo
  with assms(1) show ?thesis by (simp add: undo_def)
next
  case Redo
  with assms(1) show ?thesis by (simp add: redo_def)
next
  case ClearHistory
  with assms(1) show ?thesis by (simp add: clearHistory_def)
next
  case (UpdateSettings ns)
  with assms show ?thesis
    by (simp add: updateSettings_def merge_settings_def split: option.splits)
qed

lemma run_history_depth:
  "int (length (history s)) \<le> maxHistorySteps (settings s) \<Longrightarrow> settings_cover_log ops s \<Longrightarrow>
   int (length (history (run_history ops s))) \<le> maxHistorySteps (settings (run_history ops s))"
proof (induction ops arbitrary: s)
  case Nil
  then show ?case by simp
next
  case (Cons op ops)
  from Cons.prems(2) have ok: "case op of UpdateSettings ns \<Rightarrow>
           (case maxHistorySteps_p ns of Some m \<Rightarrow> int (length (history s)) \<le> m | None \<Rightarrow> True)
         | _ \<Rightarrow> True" and rest: "settings_cover_log ops (history_step op s)"
    by simp_all
  from Cons.IH[OF history_step_depth[OF Cons.prems(1) ok] rest] show ?case by simp
qed

lemma addToHistory_tip:
  assumes "1 \<le> maxHistorySteps (settings s)"
  shows "history (addToHistory a s) \<noteq> []"
    and "last (history (addToHistory a s)) = a"
    and "historyIndex (addToHistory a s) = int (length (history (addToHistory a s))) - 1"
proof -
  let ?pushed = "slice0 (history s) (historyIndex s + 1) @ [a]"
  let ?new = "if int (length ?pushed) > maxHistorySteps (settings s) then tl ?pushed else ?pushed"
  have h: "history (addToHistory a s) = ?new"
    by (simp add: addToHistory_def Let_def)
  show ne: "history (addToHistory a s) \<noteq> []"
  proof (cases "int (length ?pushed) > maxHistorySteps (settings s)")
    case True
    with assms have "slice0 (history s) (historyIndex s + 1) \<noteq> []" by auto
    with True h show ?thesis by simp
  next
    case False
    with h show ?thesis by simp
  qed
  show "last (history (addToHistory a s)) = a"
  proof (cases "int (length ?pushed) > maxHistorySteps (settings s)")
    case True
    with assms have "slice0 (history s) (historyIndex s + 1) \<noteq> []" by auto
    with True h show ?thesis by simp
  next
    case False
    with h show ?thesis by simp
  qed
  show "historyIndex (addToHistory a s) = int (length (history (addToHistory a s))) - 1"
    by (simp add: addToHistory_def Let_def)
qed

lemma js_index_last: "xs \<noteq> [] \<Longrightarrow> js_index xs (int (length xs) - 1) = JsValue (last xs)"
  by (cases xs rule: rev_cases) (auto simp: js_index_def nat_diff_distrib)

subsection \<open>Depth bound\<close>

text \<open>
  Claim C3, as the code has it. The initial store respects the depth bound, and from any
  state that respects it, every sequence of \<open>addToHistory\<close>, \<open>undo\<close>, \<open>redo\<close>,
  \<open>clearHistory\<close> and \<open>updateSettings\<close> calls of which none sets \<open>maxHistorySteps\<close> below the
  length the log has at that moment leads to a state whose log is no longer than
  \<open>maxHistorySteps\<close>. When the log with the new action pushed is longer than
  \<open>maxHistorySteps\<close>, \<open>addToHistory\<close> drops its first entry and sets the cursor to the last
  index, where the new action is whenever \<open>maxHistorySteps\<close> is at least 1. With
  \<open>maxHistorySteps = 2\<close> and an empty log, adding \<open>x\<close>, \<open>y\<close>, \<open>z\<close> gives the log \<open>[y, z]\<close> and
  cursor 1.
\<close>

theorem history_depth_bound:
  "int (length (history (initialState :: ('p, 'tb) AppState)))
      \<le> maxHistorySteps (settings (initialState :: ('p, 'tb) AppState))
   \<and> (int (length (history i)) \<le> maxHistorySteps (settings i) \<and> settings_cover_log ops i
      \<longrightarrow> int (length (history (run_history ops i)))
            \<le> maxHistorySteps (settings (run_history ops i)))
   \<and> (int (length (slice0 (history s) (historyIndex s + 1) @ [a])) > maxHistorySteps (settings s)
      \<longrightarrow> history (addToHistory a s) = tl (slice0 (history s) (historyIndex s + 1) @ [a])
        \<and> historyIndex (addToHistory a s) = int (length (history (addToHistory a s))) - 1
        \<and> (1 \<le> maxHistorySteps (settings s)
             \<longrightarrow> js_index (history (addToHistory a s)) (historyIndex (addToHistory a s)) = JsValue a))
   \<and> (maxHistorySteps (settings s0) = 2 \<and> history s0 = [] \<and> historyIndex s0 = - 1
      \<longrightarrow> history (run_history [AddToHistory x, AddToHistory y, AddToHistory z] s0) = [y, z]
        \<and> historyIndex (run_history [AddToHistory x, AddToHistory y, AddToHistory z] s0) = 1)"
proof (intro conjI impI)
  show "int (length (history (initialState :: ('p, 'tb) AppState)))
      \<le> maxHistorySteps (settings (initialState :: ('p, 'tb) AppState))"
    by (simp add: initialState_def defaultSettings_def)
next
  assume "int (length (history i)) \<le> maxHistorySteps (settings i) \<and> settings_cover_log ops i"
  then show "int (length (history (run_history ops i))) \<le> maxHistorySteps (settings (run_history ops i))"
    using run_history_depth by blast
next
  assume "int (length (slice0 (history s) (historyIndex s + 1) @ [a])) > maxHistorySteps (settings s)"
  then show "history (addToHistory a s) = tl (slice0 (history s) (historyIndex s + 1) @ [a])"
    by (simp add: addToHistory_def Let_def)
next
  show "historyIndex (addToHistory a s) = int (length (history (addToHistory a s))) - 1"
    by (simp add: addToHistory_def Let_def)
next
  assume m: "1 \<le> maxHistorySteps (settings s)"
  from addToHistory_tip[OF m, of a] js_index_last[of "history (addToHistory a s)"]
  show "js_index (history (addToHistory a s)) (historyIndex (addToHistory a s)) = JsValue a"
    by simp
next
  assume a: "maxHistorySteps (settings s0) = 2 \<and> history s0 = [] \<and> historyIndex s0 = - 1"
  then show "history (run_history [AddToHistory x, AddToHistory y, AddToHistory z] s0) = [y, z]"
    by (simp add: addToHistory_def slice0_def)
  from a show "historyIndex (run_history [AddToHistory x, AddToHistory y, AddToHistory z] s0) = 1"
    by (simp add: addToHistory_def slice0_def)
qed

theorem history_depth_bound_witness:
  "settings_cover_log
     [AddToHistory (edit_action ''a''), UpdateSettings (only_maxHistorySteps 2),
      AddToHistory (edit_action ''b''), Undo, Redo, AddToHistory (edit_action ''c'')] initialStore
   \<and> history (run_history
       [AddToHistory (edit_action ''a''), UpdateSettings (only_maxHistorySteps 2),
        AddToHistory (edit_action ''b''), Undo, Redo, AddToHistory (edit_action ''c'')] initialStore)
     = [edit_action ''b'', edit_action ''c'']
   \<and> int (length (history (run_history
       [AddToHistory (edit_action ''a''), UpdateSettings (only_maxHistorySteps 2),
        AddToHistory (edit_action ''b''), Undo, Redo, AddToHistory (edit_action ''c'')] initialStore)))
     \<le> maxHistorySteps (settings (run_history
       [AddToHistory (edit_action ''a''), UpdateSettings (only_maxHistorySteps 2),
        AddToHistory (edit_action ''b''), Undo, Redo, AddToHistory (edit_action ''c'')] initialStore))
   \<and> int (length (slice0
         (history (run_history [UpdateSettings (only_maxHistorySteps 2),
            AddToHistory (edit_action ''a''), AddToHistory (edit_action ''b'')] initialStore))
         (historyIndex (run_history [UpdateSettings (only_maxHistorySteps 2),
            AddToHistory (edit_action ''a''), AddToHistory (edit_action ''b'')] initialStore) + 1)
         @ [edit_action ''c'']))
       > maxHistorySteps (settings (run_history [UpdateSettings (only_maxHistorySteps 2),
            AddToHistory (edit_action ''a''), AddToHistory (edit_action ''b'')] initialStore))
   \<and> (1::int) \<le> maxHistorySteps (settings (run_history [UpdateSettings (only_maxHistorySteps 2),
            AddToHistory (edit_action ''a''), AddToHistory (edit_action ''b'')] initialStore))
   \<and> js_index
         (history (addToHistory (edit_action ''c'') (run_history [UpdateSettings (only_maxHistorySteps 2),
            AddToHistory (edit_action ''a''), AddToHistory (edit_action ''b'')] initialStore)))
         (historyIndex (addToHistory (edit_action ''c'') (run_history [UpdateSettings (only_maxHistorySteps 2),
            AddToHistory (edit_action ''a''), AddToHistory (edit_action ''b'')] initialStore)))
       = JsValue (edit_action ''c'')
   \<and> maxHistorySteps (settings (updateSettings (only_maxHistorySteps 2) initialStore)) = 2
   \<and> history (updateSettings (only_maxHistorySteps 2) initialStore) = []
   \<and> historyIndex (updateSettings (only_maxHistorySteps 2) initialStore) = - 1
   \<and> history (run_history [AddToHistory (edit_action ''a''), AddToHistory (edit_action ''b''),
                           AddToHistory (edit_action ''c'')]
                (updateSettings (only_maxHistorySteps 2) initialStore))
       = [edit_action ''b'', edit_action ''c'']
   \<and> historyIndex (run_history [AddToHistory (edit_action ''a''), AddToHistory (edit_action ''b''),
                           AddToHistory (edit_action ''c'')]
                (updateSettings (only_maxHistorySteps 2) initialStore)) = 1"
proof -
  let ?ops = "[AddToHistory (edit_action ''a''), UpdateSettings (only_maxHistorySteps 2),
        AddToHistory (edit_action ''b''), Undo, Redo, AddToHistory (edit_action ''c'')]"
  let ?full = "run_history [UpdateSettings (only_maxHistorySteps 2),
            AddToHistory (edit_action ''a''), AddToHistory (edit_action ''b'')] initialStore"
  let ?fresh = "updateSettings (only_maxHistorySteps 2) initialStore"
  note defs = initialStore_def initialState_def defaultSettings_def addToHistory_def
        updateSettings_def merge_settings_def only_maxHistorySteps_def slice0_def undo_def redo_def
  have c: "settings_cover_log ?ops (initialState :: (unit, unit) AppState)"
    by (simp add: defs)
  have h: "history (run_history ?ops (initialState :: (unit, unit) AppState))
      = [edit_action ''b'', edit_action ''c'']"
    by (simp add: defs)
  have f1: "int (length (slice0 (history ?full) (historyIndex ?full + 1) @ [edit_action ''c'']))
      > maxHistorySteps (settings ?full)"
    by (simp add: defs)
  have f2: "1 \<le> maxHistorySteps (settings ?full)"
    by (simp add: defs)
  have g: "maxHistorySteps (settings ?fresh) = 2 \<and> history ?fresh = [] \<and> historyIndex ?fresh = - 1"
    by (simp add: defs)
  have init: "int (length (history (initialState :: (unit, unit) AppState)))
      \<le> maxHistorySteps (settings (initialState :: (unit, unit) AppState))"
    by (simp add: defs)
  note T = history_depth_bound[of "initialState :: (unit, unit) AppState" ?ops ?full
      "edit_action ''c''" ?fresh "edit_action ''a''" "edit_action ''b''" "edit_action ''c''",
      where ?'p = unit and ?'tb = unit]
  from T c init have b1: "int (length (history (run_history ?ops (initialState :: (unit, unit) AppState))))
      \<le> maxHistorySteps (settings (run_history ?ops (initialState :: (unit, unit) AppState)))"
    by blast
  from T f1 f2 have b2: "js_index (history (addToHistory (edit_action ''c'') ?full))
         (historyIndex (addToHistory (edit_action ''c'') ?full)) = JsValue (edit_action ''c'')"
    by blast
  from T g have b3: "history (run_history [AddToHistory (edit_action ''a''),
        AddToHistory (edit_action ''b''), AddToHistory (edit_action ''c'')] ?fresh)
       = [edit_action ''b'', edit_action ''c'']
     \<and> historyIndex (run_history [AddToHistory (edit_action ''a''),
        AddToHistory (edit_action ''b''), AddToHistory (edit_action ''c'')] ?fresh) = 1"
    by blast
  from c h b1 f1 f2 b2 g b3 show ?thesis
    unfolding initialStore_def by blast
qed

text \<open>
  Claim C3 as stated fails: \<open>updateSettings\<close> replaces the settings and leaves the log as
  it is. After three actions under the default depth of 50, lowering \<open>maxHistorySteps\<close> to 2
  leaves three entries in the log; the next \<open>addToHistory\<close> drops one entry for the one it
  adds, so the log still has three.
\<close>

theorem log_exceeds_lowered_depth:
  "history (run_history
      [AddToHistory (edit_action ''a''), AddToHistory (edit_action ''b''),
       AddToHistory (edit_action ''c''), UpdateSettings (only_maxHistorySteps 2)] initialStore)
     = [edit_action ''a'', edit_action ''b'', edit_action ''c'']
   \<and> maxHistorySteps (settings (run_history
      [AddToHistory (edit_action ''a''), AddToHistory (edit_action ''b''),
       AddToHistory (edit_action ''c''), UpdateSettings (only_maxHistorySteps 2)] initialStore)) = 2
   \<and> history (run_history
      [AddToHistory (edit_action ''a''), AddToHistory (edit_action ''b''),
       AddToHistory (edit_action ''c''), UpdateSettings (only_maxHistorySteps 2),
       AddToHistory (edit_action ''d'')] initialStore)
     = [edit_action ''b'', edit_action ''c'', edit_action ''d'']"
  by (simp add: initialStore_def initialState_def defaultSettings_def addToHistory_def
      updateSettings_def merge_settings_def only_maxHistorySteps_def slice0_def)

subsection \<open>Branch truncation\<close>




subsection \<open>Undo and redo\<close>

text \<open>
  Claim C7, as the code has it. In any state with \<open>maxHistorySteps\<close> at least 1,
  \<open>addToHistory(a)\<close> followed by \<open>undo()\<close> and \<open>redo()\<close> makes \<open>redo\<close> return \<open>a\<close> and leaves
  the cursor, and the log, as they were right after \<open>addToHistory(a)\<close>.
\<close>

theorem undo_redo_round_trip:
  assumes "1 \<le> maxHistorySteps (settings s)"
  shows "fst (redo (snd (undo (addToHistory a s)))) = JsValue a
       \<and> historyIndex (snd (redo (snd (undo (addToHistory a s))))) = historyIndex (addToHistory a s)
       \<and> history (snd (redo (snd (undo (addToHistory a s))))) = history (addToHistory a s)"
proof -
  let ?s1 = "addToHistory a s"
  note tip = addToHistory_tip[OF assms, of a]
  from tip(1) have pos: "0 \<le> historyIndex ?s1" using tip(3) by (cases "history ?s1") auto
  have u: "snd (undo ?s1) = ?s1\<lparr> historyIndex := historyIndex ?s1 - 1 \<rparr>"
    using pos by (simp add: undo_def)
  have "js_index (history ?s1) (historyIndex ?s1) = JsValue a"
    using js_index_last[OF tip(1)] tip(2,3) by simp
  then show ?thesis
    using u tip(3) by (simp add: redo_def)
qed

theorem undo_redo_round_trip_witness:
  "(1::int) \<le> maxHistorySteps (settings initialStore)
   \<and> fst (redo (snd (undo (addToHistory (edit_action ''a'') initialStore)))) = JsValue (edit_action ''a'')
   \<and> historyIndex (snd (redo (snd (undo (addToHistory (edit_action ''a'') initialStore)))))
       = historyIndex (addToHistory (edit_action ''a'') initialStore)"
proof -
  have m: "1 \<le> maxHistorySteps (settings initialStore)"
    by (simp add: initialStore_def initialState_def defaultSettings_def)
  from undo_redo_round_trip[OF m, of "edit_action ''a''"] m show ?thesis
    by simp
qed

text \<open>
  Claim C7 as stated fails in a state with \<open>maxHistorySteps = 0\<close>: \<open>addToHistory\<close> pushes
  the action and shifts it out again, the log stays empty, and \<open>redo\<close> returns \<open>null\<close>.
\<close>

theorem round_trip_lost_without_depth:
  "fst (redo (snd (undo (addToHistory (edit_action ''a'')
          (updateSettings (only_maxHistorySteps 0) initialStore))))) = JsNull
   \<and> history (addToHistory (edit_action ''a'')
          (updateSettings (only_maxHistorySteps 0) initialStore)) = []"
  by (simp add: redo_def undo_def addToHistory_def updateSettings_def merge_settings_def
      only_maxHistorySteps_def initialStore_def initialState_def defaultSettings_def slice0_def)


text \<open>
  Claim C10. \<open>undo\<close> and \<open>redo\<close> change no field of the store but \<open>historyIndex\<close>: the log and
  the project are as before. With the cursor on an action, \<open>undo\<close> returns that action and
  moves the cursor one down; with an action after the cursor, \<open>redo\<close> returns that action and
  moves the cursor one up.
\<close>

theorem undo_redo_only_move_cursor:
  "snd (undo s) = s\<lparr> historyIndex := historyIndex (snd (undo s)) \<rparr>
   \<and> snd (redo s) = s\<lparr> historyIndex := historyIndex (snd (redo s)) \<rparr>
   \<and> history (snd (undo s)) = history s \<and> project (snd (undo s)) = project s
   \<and> history (snd (redo s)) = history s \<and> project (snd (redo s)) = project s
   \<and> (0 \<le> historyIndex s \<and> historyIndex s < int (length (history s))
        \<longrightarrow> fst (undo s) = JsValue (history s ! nat (historyIndex s))
          \<and> historyIndex (snd (undo s)) = historyIndex s - 1)
   \<and> (- 1 \<le> historyIndex s \<and> historyIndex s < int (length (history s)) - 1
        \<longrightarrow> fst (redo s) = JsValue (history s ! nat (historyIndex s + 1))
          \<and> historyIndex (snd (redo s)) = historyIndex s + 1)"
  by (simp add: undo_def redo_def js_index_def)

theorem undo_redo_only_move_cursor_witness:
  "(0::int) \<le> historyIndex (snd (undo (run_history
        [AddToHistory (edit_action ''a''), AddToHistory (edit_action ''b'')] initialStore)))
   \<and> historyIndex (snd (undo (run_history
        [AddToHistory (edit_action ''a''), AddToHistory (edit_action ''b'')] initialStore)))
       < int (length (history (snd (undo (run_history
        [AddToHistory (edit_action ''a''), AddToHistory (edit_action ''b'')] initialStore))))) - 1
   \<and> fst (undo (snd (undo (run_history
        [AddToHistory (edit_action ''a''), AddToHistory (edit_action ''b'')] initialStore))))
       = JsValue (edit_action ''a'')
   \<and> fst (redo (snd (undo (run_history
        [AddToHistory (edit_action ''a''), AddToHistory (edit_action ''b'')] initialStore))))
       = JsValue (edit_action ''b'')
   \<and> history (snd (redo (snd (undo (run_history
        [AddToHistory (edit_action ''a''), AddToHistory (edit_action ''b'')] initialStore)))))
       = [edit_action ''a'', edit_action ''b'']"
proof -
  let ?s = "snd (undo (run_history
        [AddToHistory (edit_action ''a''), AddToHistory (edit_action ''b'')] initialStore))"
  have h: "history ?s = [edit_action ''a'', edit_action ''b'']"
    by (simp add: initialStore_def initialState_def defaultSettings_def addToHistory_def
        slice0_def undo_def)
  have i: "historyIndex ?s = 0"
    by (simp add: initialStore_def initialState_def defaultSettings_def addToHistory_def
        slice0_def undo_def)
  from undo_redo_only_move_cursor[of ?s] h i show ?thesis
    by simp
qed

text \<open>At the two ends of the log the calls return \<open>null\<close> and change nothing.\<close>

lemma undo_redo_at_boundary:
  "(historyIndex s < 0 \<longrightarrow> undo s = (JsNull, s))
   \<and> (int (length (history s)) - 1 \<le> historyIndex s \<longrightarrow> redo s = (JsNull, s))"
  by (simp add: undo_def redo_def)


end
